theory Spec2Isabelle
  imports Main
begin

section \<open>The knapsack solvers of main.py\<close>

text \<open>
  An item is the pair (value, cost); the source takes any Python numbers, the model takes
  integers. An entry of an assignment is
  Python's \<open>None\<close> (not decided yet) or an integer: \<open>Some 0\<close> is excluded and
  \<open>Some 1\<close> is included. A candidate is the triple (assignment, value, cost) that the
  solvers keep in \<open>best_solution\<close>.
\<close>

type_synonym item = "int \<times> int"
type_synonym entry = "int option"
type_synonym 'a candidate = "'a list \<times> int \<times> int"

datatype error = IndexError | ValueError | AssertionError

subsection \<open>The evaluator\<close>

text \<open>
  \<open>sum([options[i][0] for i in range(len(solution)) if solution[i] == 1])\<close>:
  the indices run over the assignment, and \<open>options[i]\<close> raises IndexError at an
  included index that the item sequence does not have.
\<close>

definition compute_value :: "entry list \<Rightarrow> item list \<Rightarrow> error + int" where
  "compute_value solution options =
     (let included = filter (\<lambda>i. solution ! i = Some 1) [0..<length solution]
      in if list_ex (\<lambda>i. length options \<le> i) included then Inl IndexError
         else Inr (sum_list (map (\<lambda>i. fst (options ! i)) included)))"

definition compute_cost :: "entry list \<Rightarrow> item list \<Rightarrow> error + int" where
  "compute_cost solution options =
     (let included = filter (\<lambda>i. solution ! i = Some 1) [0..<length solution]
      in if list_ex (\<lambda>i. length options \<le> i) included then Inl IndexError
         else Inr (sum_list (map (\<lambda>i. snd (options ! i)) included)))"

subsection \<open>Branch expansion\<close>

text \<open>\<open>list.index\<close>: the first position of an element, ValueError when it is absent.\<close>

fun list_index :: "'a list \<Rightarrow> 'a \<Rightarrow> error + nat" where
  "list_index [] x = Inl ValueError"
| "list_index (y # ys) x =
     (if y = x then Inr 0
      else case list_index ys x of Inl e \<Rightarrow> Inl e | Inr i \<Rightarrow> Inr (Suc i))"

definition expand_branches :: "entry list \<Rightarrow> error + entry list list" where
  "expand_branches solution =
     (if None \<in> set solution then
        (case list_index solution None of
           Inl e \<Rightarrow> Inl e
         | Inr next_node_index \<Rightarrow>
             Inr (map (\<lambda>value. solution[next_node_index := Some value]) [0, 1]))
      else Inr [])"

subsection \<open>The branch and bound solver\<close>

text \<open>
  The body of the \<open>while\<close> loop, after \<open>solution = branches.pop(0)\<close>: it returns
  the new frontier and the new best candidate.
\<close>

definition bb_body ::
  "item list \<Rightarrow> int \<Rightarrow> entry list \<Rightarrow> entry list list \<Rightarrow> entry candidate
     \<Rightarrow> error + (entry list list \<times> entry candidate)" where
  "bb_body options bound solution branches best_solution =
     (case compute_cost solution options of
        Inl e \<Rightarrow> Inl e
      | Inr cost \<Rightarrow>
     (case compute_value solution options of
        Inl e \<Rightarrow> Inl e
      | Inr value \<Rightarrow>
          if cost \<le> bound then
            (let best_solution' =
                   (if value > fst (snd best_solution)
                       \<or> value = fst (snd best_solution) \<and> cost < snd (snd best_solution)
                    then (solution, value, cost) else best_solution)
             in case expand_branches solution of
                  Inl e \<Rightarrow> Inl e
                | Inr children \<Rightarrow> Inr (branches @ children, best_solution'))
          else Inr (branches, best_solution)))"

text \<open>
  The number of iterations that a frontier can still need: a node with \<open>k\<close>
  undecided entries heads a subtree of \<open>tree_size k = 2 ^ (k + 1) - 1\<close> nodes.
\<close>

definition unset :: "entry list \<Rightarrow> nat" where
  "unset solution = length (filter (\<lambda>x. x = None) solution)"

fun tree_size :: "nat \<Rightarrow> nat" where
  "tree_size 0 = 1"
| "tree_size (Suc k) = 2 * tree_size k + 1"

definition weight :: "entry list list \<Rightarrow> nat" where
  "weight branches = sum_list (map (\<lambda>s. tree_size (unset s)) branches)"

text \<open>The facts about \<open>expand_branches\<close> that the termination of the loop rests on.\<close>

lemma list_index_mem:
  "x \<in> set xs \<Longrightarrow>
     \<exists>i. list_index xs x = Inr i \<and> i < length xs \<and> xs ! i = x \<and> (\<forall>j<i. xs ! j \<noteq> x)"
proof (induction xs)
  case Nil
  then show ?case by simp
next
  case (Cons y ys)
  show ?case
  proof (cases "y = x")
    case True
    then show ?thesis by simp
  next
    case False
    with Cons.prems have "x \<in> set ys" by simp
    from Cons.IH [OF this] obtain i where i: "list_index ys x = Inr i" "i < length ys"
      "ys ! i = x" "\<forall>j<i. ys ! j \<noteq> x" by blast
    have "\<forall>j<Suc i. (y # ys) ! j \<noteq> x"
      using False i(4) by (auto simp: nth_Cons')
    with False i show ?thesis by simp
  qed
qed

lemma expand_branches_complete: "None \<notin> set s \<Longrightarrow> expand_branches s = Inr []"
  by (simp add: expand_branches_def)

lemma expand_branches_partial:
  "None \<in> set s \<Longrightarrow>
     \<exists>i. i < length s \<and> s ! i = None \<and> (\<forall>j<i. s ! j \<noteq> None)
          \<and> expand_branches s = Inr [s[i := Some 0], s[i := Some 1]]"
  using list_index_mem [of None s] by (auto simp: expand_branches_def)

lemma expand_branches_total: "\<exists>bs. expand_branches s = Inr bs"
  using expand_branches_partial [of s] expand_branches_complete [of s] by blast

lemma unset_update:
  "i < length s \<Longrightarrow> s ! i = None \<Longrightarrow> Suc (unset (s[i := Some v])) = unset s"
proof (induction s arbitrary: i)
  case Nil
  then show ?case by simp
next
  case (Cons x xs)
  then show ?case by (cases i) (auto simp: unset_def)
qed

lemma weight_children:
  "expand_branches s = Inr bs \<Longrightarrow> weight bs < tree_size (unset s)"
proof (cases "None \<in> set s")
  case False
  assume "expand_branches s = Inr bs"
  with False have "bs = []" by (simp add: expand_branches_complete)
  then show ?thesis by (cases "unset s") (simp_all add: weight_def)
next
  case True
  assume e: "expand_branches s = Inr bs"
  from expand_branches_partial [OF True] e obtain i where
    i: "i < length s" "s ! i = None" and bs: "bs = [s[i := Some 0], s[i := Some 1]]"
    by auto
  have u: "unset s = Suc (unset (s[i := Some 0]))" "unset s = Suc (unset (s[i := Some 1]))"
    using unset_update [OF i] by simp_all
  have "unset (s[i := Some 1]) = unset (s[i := Some 0])" using u by simp
  then show ?thesis unfolding bs weight_def using u(1) by simp
qed

lemma weight_append: "weight (xs @ ys) = weight xs + weight ys"
  by (simp add: weight_def)

lemma weight_Cons: "weight (s # xs) = tree_size (unset s) + weight xs"
  by (simp add: weight_def)

lemma tree_size_pos: "0 < tree_size k"
  by (cases k) simp_all

lemma bb_body_frontier:
  "bb_body options bound solution branches best = Inr (branches', best')
     \<Longrightarrow> branches' = branches
         \<or> (\<exists>bs. expand_branches solution = Inr bs \<and> branches' = branches @ bs)"
  by (auto simp: bb_body_def Let_def split: sum.splits if_splits)

lemma bb_body_weight:
  assumes "bb_body options bound solution branches best = Inr (branches', best')"
  shows "weight branches' < weight (solution # branches)"
  using bb_body_frontier [OF assms]
proof
  assume "branches' = branches"
  with tree_size_pos [of "unset solution"] show ?thesis by (simp add: weight_Cons)
next
  assume "\<exists>bs. expand_branches solution = Inr bs \<and> branches' = branches @ bs"
  then obtain bs where bs: "expand_branches solution = Inr bs" "branches' = branches @ bs"
    by blast
  from weight_children [OF bs(1)] show ?thesis
    by (simp add: bs(2) weight_append weight_Cons)
qed

text \<open>
  The \<open>while branches:\<close> loop. It ends because every iteration lowers the weight of
  the frontier.
\<close>

function bb_loop ::
  "item list \<Rightarrow> int \<Rightarrow> entry list list \<Rightarrow> entry candidate \<Rightarrow> error + entry candidate" where
  "bb_loop options bound [] best_solution = Inr best_solution"
| "bb_loop options bound (solution # branches) best_solution =
     (case bb_body options bound solution branches best_solution of
        Inl e \<Rightarrow> Inl e
      | Inr (branches', best_solution') \<Rightarrow> bb_loop options bound branches' best_solution')"
  by pat_completeness auto
termination
  by (relation "measure (\<lambda>(options, bound, branches, best_solution). weight branches)")
     (auto dest: bb_body_weight)

text \<open>
  The state of the same loop after at most \<open>k\<close> iterations: the frontier and the best
  candidate found so far.
\<close>

fun bb_run ::
  "nat \<Rightarrow> item list \<Rightarrow> int \<Rightarrow> entry list list \<Rightarrow> entry candidate
     \<Rightarrow> error + (entry list list \<times> entry candidate)" where
  "bb_run 0 options bound branches best_solution = Inr (branches, best_solution)"
| "bb_run (Suc k) options bound [] best_solution = Inr ([], best_solution)"
| "bb_run (Suc k) options bound (solution # branches) best_solution =
     (case bb_body options bound solution branches best_solution of
        Inl e \<Rightarrow> Inl e
      | Inr (branches', best_solution') \<Rightarrow> bb_run k options bound branches' best_solution')"

text \<open>
  \<open>branch_and_bound\<close>: the frontier starts with the children of the all-unset
  assignment, the best candidate with the all-excluded one. The assertion is the last
  check before the return, which writes 0 for every entry still unset.
\<close>

definition branch_and_bound :: "item list \<Rightarrow> int \<Rightarrow> error + int candidate" where
  "branch_and_bound options bound =
     (let solution = replicate (length options) None;
          best_solution = (replicate (length options) (Some 0), 0, 0)
      in case expand_branches solution of
           Inl e \<Rightarrow> Inl e
         | Inr branches \<Rightarrow>
        (case bb_loop options bound branches best_solution of
           Inl e \<Rightarrow> Inl e
         | Inr best_solution \<Rightarrow>
             if snd (snd best_solution) \<le> bound
             then Inr (map (\<lambda>x. case x of None \<Rightarrow> 0 | Some v \<Rightarrow> v) (fst best_solution),
                       fst (snd best_solution), snd (snd best_solution))
             else Inl AssertionError))"

subsection \<open>The brute force solver\<close>

text \<open>
  The \<open>for\<close> loop over \<open>itertools.product(range(2), repeat=len(options))\<close>, whose
  tuples come in lexicographic order, the last position changing fastest. A tuple has
  integer entries, which the evaluator reads as \<open>Some\<close> of them.
\<close>

fun bf_loop ::
  "item list \<Rightarrow> int \<Rightarrow> int list list \<Rightarrow> int candidate \<Rightarrow> error + int candidate" where
  "bf_loop options bound [] best_solution = Inr best_solution"
| "bf_loop options bound (solution # rest) best_solution =
     (case compute_cost (map Some solution) options of
        Inl e \<Rightarrow> Inl e
      | Inr cost \<Rightarrow>
     (case compute_value (map Some solution) options of
        Inl e \<Rightarrow> Inl e
      | Inr value \<Rightarrow>
          bf_loop options bound rest
            (if (cost \<le> bound \<and> value > fst (snd best_solution))
                \<or> (value = fst (snd best_solution) \<and> cost < snd (snd best_solution))
             then (solution, value, cost) else best_solution)))"

definition product_range2 :: "nat \<Rightarrow> int list list" where
  "product_range2 n = product_lists (replicate n [0, 1])"

definition brute_force :: "item list \<Rightarrow> int \<Rightarrow> error + int candidate" where
  "brute_force options bound =
     (let best_solution = (replicate (length options) 0, 0, 0)
      in case bf_loop options bound (product_range2 (length options)) best_solution of
           Inl e \<Rightarrow> Inl e
         | Inr best_solution \<Rightarrow>
             if snd (snd best_solution) \<le> bound then Inr best_solution
             else Inl AssertionError)"

subsection \<open>The decision tree\<close>

text \<open>
  The tree that \<open>expand_branches\<close> spans below an assignment, level by level and
  without pruning: \<open>descendants s d\<close> lists the nodes \<open>d\<close> expansions below \<open>s\<close>.
\<close>

definition children :: "entry list \<Rightarrow> entry list list" where
  "children s = (case expand_branches s of Inl e \<Rightarrow> [] | Inr bs \<Rightarrow> bs)"

fun descendants :: "entry list \<Rightarrow> nat \<Rightarrow> entry list list" where
  "descendants s 0 = [s]"
| "descendants s (Suc d) = concat (map children (descendants s d))"

section \<open>Notions for the correctness of the solvers\<close>

text \<open>The indices that an assignment includes, and the totals over them.\<close>

definition included :: "entry list \<Rightarrow> nat set" where
  "included s = {i. i < length s \<and> s ! i = Some 1}"

definition total_cost :: "item list \<Rightarrow> entry list \<Rightarrow> int" where
  "total_cost options s = (\<Sum>i\<in>included s. snd (options ! i))"

definition total_value :: "item list \<Rightarrow> entry list \<Rightarrow> int" where
  "total_value options s = (\<Sum>i\<in>included s. fst (options ! i))"

text \<open>A complete 0/1 assignment extends a partial one when it agrees with every decided entry.\<close>

definition binary :: "int list \<Rightarrow> bool" where
  "binary t \<longleftrightarrow> set t \<subseteq> {0, 1}"

definition extends :: "int list \<Rightarrow> entry list \<Rightarrow> bool" where
  "extends t s \<longleftrightarrow> length t = length s \<and> (\<forall>i<length s. s ! i = None \<or> s ! i = Some (t ! i))"

definition tristate :: "entry list \<Rightarrow> bool" where
  "tristate s \<longleftrightarrow> set s \<subseteq> {None, Some 0, Some 1}"

text \<open>The acceptance order on (value, cost): more value, or the same value at less cost.\<close>

definition better :: "int \<times> int \<Rightarrow> int \<times> int \<Rightarrow> bool" where
  "better p q \<longleftrightarrow> fst p > fst q \<or> (fst p = fst q \<and> snd p < snd q)"

definition bb_cand :: "item list \<Rightarrow> int \<Rightarrow> entry candidate \<Rightarrow> bool" where
  "bb_cand options bound best \<longleftrightarrow>
     length (fst best) = length options \<and> tristate (fst best)
     \<and> snd best = (total_value options (fst best), total_cost options (fst best))
     \<and> snd (snd best) \<le> bound"

text \<open>
  The frontier holds assignments of the right length; a pair (value, cost) covers a
  frontier when no feasible complete assignment below one of its nodes is better.
\<close>

definition frontier_ok :: "item list \<Rightarrow> entry list list \<Rightarrow> bool" where
  "frontier_ok options branches \<longleftrightarrow>
     (\<forall>s\<in>set branches. length s = length options \<and> tristate s)"

definition covers ::
  "item list \<Rightarrow> int \<Rightarrow> entry list list \<Rightarrow> int \<times> int \<Rightarrow> bool" where
  "covers options bound branches p \<longleftrightarrow>
     (\<forall>t. binary t \<longrightarrow> (\<exists>s\<in>set branches. extends t s) \<longrightarrow>
          total_cost options (map Some t) \<le> bound \<longrightarrow>
          \<not> better (total_value options (map Some t), total_cost options (map Some t)) p)"

text \<open>
  An optimal result: a complete 0/1 assignment with its totals, within the bound, that no
  complete 0/1 assignment within the bound beats in the acceptance order.
\<close>

definition optimal :: "item list \<Rightarrow> int \<Rightarrow> int candidate \<Rightarrow> bool" where
  "optimal options bound r \<longleftrightarrow>
     length (fst r) = length options \<and> binary (fst r)
     \<and> snd r = (total_value options (map Some (fst r)), total_cost options (map Some (fst r)))
     \<and> snd (snd r) \<le> bound
     \<and> (\<forall>t. length t = length options \<longrightarrow> binary t \<longrightarrow>
            total_cost options (map Some t) \<le> bound \<longrightarrow>
            \<not> better (total_value options (map Some t), total_cost options (map Some t)) (snd r))"

section \<open>Properties of the evaluator\<close>

lemma included_in_range:
  "length solution \<le> length options \<Longrightarrow>
     \<not> list_ex (\<lambda>i. length options \<le> i) (filter (\<lambda>i. solution ! i = Some 1) [0..<length solution])"
  by (auto simp: list_ex_iff)

lemma sum_list_filter_upt:
  "sum_list (map g (filter P [0..<n])) = (\<Sum>i | i < n \<and> P i. (g i :: int))"
proof -
  have "distinct (filter P [0..<n])" by simp
  then have "sum_list (map g (filter P [0..<n])) = sum g (set (filter P [0..<n]))"
    by (rule sum_list_distinct_conv_sum_set)
  also have "set (filter P [0..<n]) = {i. i < n \<and> P i}" by auto
  finally show ?thesis .
qed

lemma compute_cost_sum:
  "length solution \<le> length options \<Longrightarrow>
     compute_cost solution options
       = Inr (\<Sum>i | i < length solution \<and> solution ! i = Some 1. snd (options ! i))"
  using included_in_range [of solution options]
  by (simp add: compute_cost_def Let_def sum_list_filter_upt)

lemma compute_value_sum:
  "length solution \<le> length options \<Longrightarrow>
     compute_value solution options
       = Inr (\<Sum>i | i < length solution \<and> solution ! i = Some 1. fst (options ! i))"
  using included_in_range [of solution options]
  by (simp add: compute_value_def Let_def sum_list_filter_upt)

section \<open>Included indices, extensions and the acceptance order\<close>

lemma finite_included: "finite (included s)"
  by (simp add: included_def)

lemma compute_cost_total:
  "length s \<le> length options \<Longrightarrow> compute_cost s options = Inr (total_cost options s)"
  by (simp add: compute_cost_sum total_cost_def included_def)

lemma compute_value_total:
  "length s \<le> length options \<Longrightarrow> compute_value s options = Inr (total_value options s)"
  by (simp add: compute_value_sum total_value_def included_def)

lemma included_exclude:
  "s ! i \<noteq> Some 1 \<Longrightarrow> included (s[i := Some 0]) = included s"
proof (cases "i < length s")
  case True
  assume "s ! i \<noteq> Some 1"
  with True show ?thesis by (auto simp: included_def nth_list_update split: if_splits)
next
  case False
  then have "s[i := Some 0] = s" by (simp add: list_update_beyond not_less)
  then show ?thesis by simp
qed

lemma included_include:
  "i < length s \<Longrightarrow> included (s[i := Some 1]) = insert i (included s)"
  by (auto simp: included_def nth_list_update split: if_splits)

lemma total_cost_mono:
  assumes nn: "\<forall>it\<in>set options. 0 \<le> snd it"
    and len: "length s' \<le> length options"
    and sub: "included s \<subseteq> included s'"
  shows "total_cost options s \<le> total_cost options s'"
  unfolding total_cost_def
proof (rule sum_mono2 [OF finite_included sub])
  fix b
  assume "b \<in> included s' - included s"
  then have "b < length options" using len by (simp add: included_def)
  then have "options ! b \<in> set options" by simp
  with nn show "0 \<le> snd (options ! b)" by blast
qed

lemma extends_included: "extends t s \<Longrightarrow> included s \<subseteq> included (map Some t)"
  by (auto simp: extends_def included_def)

lemma extends_complete:
  assumes "extends t s" "None \<notin> set s"
  shows "map Some t = s"
proof (rule nth_equalityI)
  show "length (map Some t) = length s" using assms(1) by (simp add: extends_def)
next
  fix i
  assume "i < length (map Some t)"
  then have i: "i < length s" using assms(1) by (simp add: extends_def)
  then have "s ! i \<noteq> None" using assms(2) by (metis nth_mem)
  with i assms(1) show "map Some t ! i = s ! i" by (auto simp: extends_def)
qed

lemma extends_child:
  assumes e: "extends t s" and b: "binary t" and i: "i < length s" "s ! i = None"
  shows "extends t (s[i := Some 0]) \<or> extends t (s[i := Some 1])"
proof -
  from e i have "t ! i \<in> set t" by (simp add: extends_def)
  with b have "t ! i = 0 \<or> t ! i = 1" by (auto simp: binary_def)
  then show ?thesis
  proof
    assume "t ! i = 0"
    with e i have "extends t (s[i := Some 0])"
      by (auto simp: extends_def nth_list_update split: if_splits)
    then show ?thesis ..
  next
    assume "t ! i = 1"
    with e i have "extends t (s[i := Some 1])"
      by (auto simp: extends_def nth_list_update split: if_splits)
    then show ?thesis ..
  qed
qed

lemma extends_children:
  assumes e: "extends t s" and b: "binary t" and n: "None \<in> set s"
    and x: "expand_branches s = Inr bs"
  shows "\<exists>s'\<in>set bs. extends t s'"
proof -
  from expand_branches_partial [OF n] x obtain i where
    i: "i < length s" "s ! i = None" and bs: "bs = [s[i := Some 0], s[i := Some 1]]" by auto
  from extends_child [OF e b i] show ?thesis by (auto simp: bs)
qed

lemma tristate_update:
  "tristate s \<Longrightarrow> v = 0 \<or> v = 1 \<Longrightarrow> tristate (s[i := Some v])"
  using set_update_subset_insert [of s i "Some v"] by (auto simp: tristate_def)

lemma children_shape:
  assumes "expand_branches s = Inr bs" "tristate s" "s' \<in> set bs"
  shows "length s' = length s \<and> tristate s'"
proof (cases "None \<in> set s")
  case False
  with assms(1,3) show ?thesis by (simp add: expand_branches_complete)
next
  case True
  from expand_branches_partial [OF True] assms(1) obtain i where
    bs: "bs = [s[i := Some 0], s[i := Some 1]]" by auto
  with assms(2,3) show ?thesis by (auto simp: tristate_update)
qed

lemma better_irrefl: "\<not> better p p"
  by (simp add: better_def)

lemma not_better_trans: "\<not> better a b \<Longrightarrow> \<not> better b c \<Longrightarrow> \<not> better a c"
  by (auto simp: better_def)

section \<open>Correctness of the branch and bound loop\<close>

lemma bb_body_pruned:
  assumes "length solution = length options" "\<not> total_cost options solution \<le> bound"
  shows "bb_body options bound solution branches best = Inr (branches, best)"
  using assms by (simp add: bb_body_def Let_def compute_cost_total compute_value_total)

lemma bb_body_feasible:
  assumes "length solution = length options" "total_cost options solution \<le> bound"
    and "expand_branches solution = Inr bs"
  shows "bb_body options bound solution branches best
           = Inr (branches @ bs,
                  if better (total_value options solution, total_cost options solution) (snd best)
                  then (solution, total_value options solution, total_cost options solution)
                  else best)"
  using assms by (simp add: bb_body_def Let_def compute_cost_total compute_value_total better_def)

lemma bb_loop_correct:
  "\<forall>it\<in>set options. 0 \<le> snd it \<Longrightarrow>
   frontier_ok options branches \<Longrightarrow> bb_cand options bound best \<Longrightarrow>
     \<exists>best'. bb_loop options bound branches best = Inr best' \<and> bb_cand options bound best'
        \<and> \<not> better (snd best) (snd best') \<and> covers options bound branches (snd best')"
proof (induction options bound branches best rule: bb_loop.induct)
  case (1 options bound best)
  then show ?case by (simp add: better_irrefl covers_def)
next
  case (2 options bound solution branches best)
  note nn = "2.prems"(1)
  from "2.prems"(2) have len: "length solution = length options" and tri: "tristate solution"
    and rest: "frontier_ok options branches"
    by (simp_all add: frontier_ok_def)
  let ?c = "total_cost options solution"
  let ?v = "total_value options solution"
  show ?case
  proof (cases "?c \<le> bound")
    case False
    note body = bb_body_pruned [OF len False, of branches best]
    from "2.IH" [OF body refl nn rest "2.prems"(3)] obtain best' where
      r: "bb_loop options bound branches best = Inr best'" "bb_cand options bound best'"
         "\<not> better (snd best) (snd best')" "covers options bound branches (snd best')"
      by blast
    have "covers options bound (solution # branches) (snd best')"
      unfolding covers_def
    proof (intro allI impI)
      fix t
      assume b: "binary t" and ex: "\<exists>s\<in>set (solution # branches). extends t s"
        and f: "total_cost options (map Some t) \<le> bound"
      have "\<not> extends t solution"
      proof
        assume e: "extends t solution"
        then have "length (map Some t) \<le> length options" using len by (simp add: extends_def)
        from total_cost_mono [OF nn this extends_included [OF e]] f False
        show False by simp
      qed
      with ex have "\<exists>s\<in>set branches. extends t s" by auto
      with r(4) b f
      show "\<not> better (total_value options (map Some t), total_cost options (map Some t)) (snd best')"
        by (simp add: covers_def)
    qed
    with r body show ?thesis by auto
  next
    case True
    from expand_branches_total obtain bs where bs: "expand_branches solution = Inr bs" by blast
    let ?best1 = "if better (?v, ?c) (snd best) then (solution, ?v, ?c) else best"
    note body = bb_body_feasible [OF len True bs, of branches best]
    have fr: "frontier_ok options (branches @ bs)"
      using rest children_shape [OF bs tri] len by (auto simp: frontier_ok_def)
    have c1: "bb_cand options bound ?best1"
      using "2.prems"(3) len tri True by (auto simp: bb_cand_def)
    from "2.IH" [OF body refl nn fr c1] obtain best' where
      r: "bb_loop options bound (branches @ bs) ?best1 = Inr best'" "bb_cand options bound best'"
         "\<not> better (snd ?best1) (snd best')" "covers options bound (branches @ bs) (snd best')"
      by blast
    have b1: "\<not> better (snd best) (snd ?best1)"
      by (auto simp: better_def)
    have s1: "\<not> better (?v, ?c) (snd ?best1)"
      by (auto simp: better_def)
    have mono: "\<not> better (snd best) (snd best')"
      by (rule not_better_trans [OF b1 r(3)])
    have "covers options bound (solution # branches) (snd best')"
      unfolding covers_def
    proof (intro allI impI)
      fix t
      assume b: "binary t" and ex: "\<exists>s\<in>set (solution # branches). extends t s"
        and f: "total_cost options (map Some t) \<le> bound"
      let ?p = "(total_value options (map Some t), total_cost options (map Some t))"
      from ex consider (here) "extends t solution" "None \<notin> set solution"
        | (below) "extends t solution" "None \<in> set solution"
        | (other) "\<exists>s\<in>set branches. extends t s" by auto
      then show "\<not> better ?p (snd best')"
      proof cases
        case here
        from extends_complete [OF here] have "?p = (?v, ?c)" by simp
        with not_better_trans [OF s1 r(3)] show ?thesis by simp
      next
        case below
        from extends_children [OF below(1) b below(2) bs]
        have "\<exists>s\<in>set (branches @ bs). extends t s" by auto
        with r(4) b f show ?thesis by (simp add: covers_def)
      next
        case other
        then have "\<exists>s\<in>set (branches @ bs). extends t s" by auto
        with r(4) b f show ?thesis by (simp add: covers_def)
      qed
    qed
    with r(1,2) mono body show ?thesis by auto
  qed
qed

section \<open>Both solvers return an optimum\<close>

lemma included_all_unset: "included (replicate n None) = {}"
  by (auto simp: included_def)

lemma included_all_excluded: "included (replicate n (Some 0)) = {}"
  by (auto simp: included_def)

lemma included_output:
  "included (map Some (map (\<lambda>x. case x of None \<Rightarrow> 0 | Some v \<Rightarrow> v) s)) = included s"
  by (auto simp: included_def split: option.splits)

lemma totals_output:
  "total_value options (map Some (map (\<lambda>x. case x of None \<Rightarrow> 0 | Some v \<Rightarrow> v) s))
     = total_value options s"
  "total_cost options (map Some (map (\<lambda>x. case x of None \<Rightarrow> 0 | Some v \<Rightarrow> v) s))
     = total_cost options s"
  by (simp_all only: total_value_def total_cost_def included_output)

lemma binary_output:
  "tristate s \<Longrightarrow> binary (map (\<lambda>x. case x of None \<Rightarrow> 0 | Some v \<Rightarrow> v) s)"
  by (auto simp: tristate_def binary_def split: option.splits)

lemma extends_root: "length t = n \<Longrightarrow> extends t (replicate n None)"
  by (simp add: extends_def)

lemma tristate_root: "tristate (replicate n None)"
  by (auto simp: tristate_def)

lemma bb_cand_initial:
  "0 \<le> bound \<Longrightarrow> bb_cand options bound (replicate (length options) (Some 0), 0, 0)"
  by (auto simp: bb_cand_def tristate_def total_value_def total_cost_def included_all_excluded)

lemma bb_optimal:
  assumes nn: "\<forall>it\<in>set options. 0 \<le> snd it" and b0: "0 \<le> bound"
  shows "\<exists>r. branch_and_bound options bound = Inr r \<and> optimal options bound r"
proof -
  let ?n = "length options"
  let ?root = "replicate ?n (None :: entry)"
  let ?init = "(replicate ?n (Some 0), 0, 0) :: entry candidate"
  let ?out = "map (\<lambda>x. case x of None \<Rightarrow> (0::int) | Some v \<Rightarrow> v)"
  from expand_branches_total obtain bs where bs: "expand_branches ?root = Inr bs" by blast
  have fr: "frontier_ok options bs"
    using children_shape [OF bs tristate_root] by (simp add: frontier_ok_def)
  from bb_loop_correct [OF nn fr bb_cand_initial [OF b0]] obtain best where
    r: "bb_loop options bound bs ?init = Inr best" "bb_cand options bound best"
       "\<not> better (snd ?init) (snd best)" "covers options bound bs (snd best)"
    by blast
  let ?r = "(?out (fst best), fst (snd best), snd (snd best))"
  from r(2) have feas: "snd (snd best) \<le> bound" unfolding bb_cand_def by blast
  have res: "branch_and_bound options bound = Inr ?r"
    using bs r(1) feas by (simp add: branch_and_bound_def)
  have "optimal options bound ?r"
    unfolding optimal_def
  proof (intro conjI allI impI)
    show "length (fst ?r) = length options" using r(2) by (simp add: bb_cand_def)
    show "binary (fst ?r)" using r(2) by (simp add: bb_cand_def binary_output)
    show "snd ?r = (total_value options (map Some (fst ?r)), total_cost options (map Some (fst ?r)))"
    proof -
      from r(2) have "snd best = (total_value options (fst best), total_cost options (fst best))"
        unfolding bb_cand_def by blast
      then have "fst (snd best) = total_value options (fst best)"
        "snd (snd best) = total_cost options (fst best)" by simp_all
      then show ?thesis by (simp only: fst_conv snd_conv totals_output)
    qed
    show "snd (snd ?r) \<le> bound" using feas by simp
  next
    fix t
    assume t: "length t = length options" "binary t" "total_cost options (map Some t) \<le> bound"
    let ?p = "(total_value options (map Some t), total_cost options (map Some t))"
    have e: "extends t ?root" using t(1) by (rule extends_root)
    have "\<not> better ?p (snd best)"
    proof (cases "None \<in> set ?root")
      case True
      from extends_children [OF e t(2) True bs] r(4) t(2,3) show ?thesis
        by (simp add: covers_def)
    next
      case False
      from extends_complete [OF e False]
      have "?p = (0, 0)"
        by (simp add: total_value_def total_cost_def included_all_unset)
      with r(3) show ?thesis by simp
    qed
    then show "\<not> better ?p (snd ?r)" by simp
  qed
  with res show ?thesis by blast
qed

lemma bf_loop_correct:
  "\<forall>t\<in>set sols. length t = length options \<Longrightarrow> snd (snd best) \<le> bound \<Longrightarrow>
     \<exists>best'. bf_loop options bound sols best = Inr best' \<and> snd (snd best') \<le> bound
        \<and> (best' = best
            \<or> (\<exists>t\<in>set sols. best' = (t, total_value options (map Some t),
                                         total_cost options (map Some t))))
        \<and> \<not> better (snd best) (snd best')
        \<and> (\<forall>t\<in>set sols. total_cost options (map Some t) \<le> bound \<longrightarrow>
              \<not> better (total_value options (map Some t), total_cost options (map Some t))
                   (snd best'))"
proof (induction sols arbitrary: best)
  case Nil
  then show ?case by (simp add: better_irrefl)
next
  case (Cons s sols)
  let ?c = "total_cost options (map Some s)"
  let ?v = "total_value options (map Some s)"
  let ?acc = "(?c \<le> bound \<and> ?v > fst (snd best)) \<or> (?v = fst (snd best) \<and> ?c < snd (snd best))"
  let ?best1 = "if ?acc then (s, ?v, ?c) else best"
  from Cons.prems(1) have len: "length (map Some s) \<le> length options"
    and rest: "\<forall>t\<in>set sols. length t = length options" by simp_all
  have step: "bf_loop options bound (s # sols) best = bf_loop options bound sols ?best1"
    by (simp add: compute_cost_total [OF len] compute_value_total [OF len])
  have f1: "snd (snd ?best1) \<le> bound" using Cons.prems(2) by auto
  from Cons.IH [OF rest f1] obtain best' where
    r: "bf_loop options bound sols ?best1 = Inr best'" "snd (snd best') \<le> bound"
       "best' = ?best1 \<or> (\<exists>t\<in>set sols. best' = (t, total_value options (map Some t),
                                         total_cost options (map Some t)))"
       "\<not> better (snd ?best1) (snd best')"
       "\<forall>t\<in>set sols. total_cost options (map Some t) \<le> bound \<longrightarrow>
              \<not> better (total_value options (map Some t), total_cost options (map Some t))
                   (snd best')"
    by blast
  have b1: "\<not> better (snd best) (snd ?best1)" by (auto simp: better_def)
  have s1: "?c \<le> bound \<Longrightarrow> \<not> better (?v, ?c) (snd ?best1)"
    using Cons.prems(2) by (auto simp: better_def)
  have mono: "\<not> better (snd best) (snd best')" by (rule not_better_trans [OF b1 r(4)])
  have here: "?c \<le> bound \<Longrightarrow> \<not> better (?v, ?c) (snd best')"
    by (rule not_better_trans [OF s1 r(4)])
  have origin: "best' = best \<or> (\<exists>t\<in>set (s # sols). best' = (t, total_value options (map Some t),
                                         total_cost options (map Some t)))"
    using r(3) by (auto split: if_splits)
  from r(1,2,5) step mono here origin show ?case by auto
qed

lemma set_product_range2: "set (product_range2 n) = {t. length t = n \<and> binary t}"
proof (induction n)
  case 0
  then show ?case by (auto simp: product_range2_def binary_def)
next
  case (Suc n)
  have "set (product_range2 (Suc n))
          = (\<lambda>t. 0 # t) ` set (product_range2 n) \<union> (\<lambda>t. 1 # t) ` set (product_range2 n)"
    by (simp add: product_range2_def)
  also have "\<dots> = {t. length t = Suc n \<and> binary t}"
    unfolding Suc.IH by (auto simp: binary_def length_Suc_conv)
  finally show ?case .
qed

lemma bf_optimal:
  assumes b0: "0 \<le> bound"
  shows "\<exists>r. brute_force options bound = Inr r \<and> optimal options bound r"
proof -
  let ?n = "length options"
  let ?init = "(replicate ?n 0, 0, 0) :: int candidate"
  have lens: "\<forall>t\<in>set (product_range2 ?n). length t = length options"
    by (simp add: set_product_range2)
  have f0: "snd (snd ?init) \<le> bound" using b0 by simp
  from bf_loop_correct [OF lens f0] obtain r where
    r: "bf_loop options bound (product_range2 ?n) ?init = Inr r" "snd (snd r) \<le> bound"
       "r = ?init \<or> (\<exists>t\<in>set (product_range2 ?n). r = (t, total_value options (map Some t),
                                         total_cost options (map Some t)))"
       "\<forall>t\<in>set (product_range2 ?n). total_cost options (map Some t) \<le> bound \<longrightarrow>
              \<not> better (total_value options (map Some t), total_cost options (map Some t))
                   (snd r)"
    by blast
  have res: "brute_force options bound = Inr r"
    using r(1,2) by (simp add: brute_force_def)
  have init: "length (fst ?init) = length options \<and> binary (fst ?init)
      \<and> snd ?init = (total_value options (map Some (fst ?init)),
                      total_cost options (map Some (fst ?init)))"
    by (auto simp: binary_def total_value_def total_cost_def included_all_excluded)
  have shape: "length (fst r) = length options \<and> binary (fst r)
      \<and> snd r = (total_value options (map Some (fst r)), total_cost options (map Some (fst r)))"
    using r(3)
  proof
    assume "r = ?init"
    with init show ?thesis by simp
  next
    assume "\<exists>t\<in>set (product_range2 ?n). r = (t, total_value options (map Some t),
                                         total_cost options (map Some t))"
    then show ?thesis by (auto simp: set_product_range2)
  qed
  have "optimal options bound r"
    unfolding optimal_def using shape r(2,4) by (simp add: set_product_range2)
  with res show ?thesis by blast
qed

section \<open>Consequences of optimality, and negative bounds\<close>

lemma total_cost_nonneg:
  assumes nn: "\<forall>it\<in>set options. 0 \<le> snd it" and len: "length s \<le> length options"
  shows "0 \<le> total_cost options s"
  unfolding total_cost_def
proof (rule sum_nonneg)
  fix i
  assume "i \<in> included s"
  then have "i < length options" using len by (simp add: included_def)
  then have "options ! i \<in> set options" by simp
  with nn show "0 \<le> snd (options ! i)" by blast
qed

lemma optimal_shape:
  assumes "optimal options bound r"
  shows "length (fst r) = length options" "binary (fst r)"
    "snd r = (total_value options (map Some (fst r)), total_cost options (map Some (fst r)))"
    "snd (snd r) \<le> bound" "total_cost options (map Some (fst r)) \<le> bound"
  using assms unfolding optimal_def by auto

lemma optimal_best:
  assumes "optimal options bound r" "length t = length options" "binary t"
    "total_cost options (map Some t) \<le> bound"
  shows "\<not> better (total_value options (map Some t), total_cost options (map Some t)) (snd r)"
  using assms unfolding optimal_def by blast

lemma optimal_unique:
  assumes "optimal options bound r" "optimal options bound r'"
  shows "snd r = snd r'"
proof -
  note s = optimal_shape [OF assms(1)] and s' = optimal_shape [OF assms(2)]
  from optimal_best [OF assms(2) s(1,2,5)] s(3) have "\<not> better (snd r) (snd r')" by simp
  moreover
  from optimal_best [OF assms(1) s'(1,2,5)] s'(3) have "\<not> better (snd r') (snd r)" by simp
  ultimately show ?thesis by (auto simp: better_def prod_eq_iff)
qed

lemma optimal_evaluator:
  assumes "optimal options bound (a, v, c)"
  shows "length a = length options \<and> set a \<subseteq> {0, 1} \<and> c \<le> bound
    \<and> compute_value (map Some a) options = Inr v \<and> compute_cost (map Some a) options = Inr c
    \<and> (\<forall>t vt ct. length t = length options \<and> set t \<subseteq> {0, 1}
          \<and> compute_value (map Some t) options = Inr vt
          \<and> compute_cost (map Some t) options = Inr ct \<and> ct \<le> bound
         \<longrightarrow> vt \<le> v \<and> (vt = v \<longrightarrow> c \<le> ct))"
proof (intro conjI allI impI)
  from assms show len: "length a = length options" by (simp add: optimal_def)
  from assms show "set a \<subseteq> {0, 1}" by (simp add: optimal_def binary_def)
  from assms show "c \<le> bound" by (simp add: optimal_def)
  from assms len show "compute_value (map Some a) options = Inr v"
    by (simp add: optimal_def compute_value_total)
  from assms len show "compute_cost (map Some a) options = Inr c"
    by (simp add: optimal_def compute_cost_total)
next
  fix t vt ct
  assume t: "length t = length options \<and> set t \<subseteq> {0, 1}
          \<and> compute_value (map Some t) options = Inr vt
          \<and> compute_cost (map Some t) options = Inr ct \<and> ct \<le> bound"
  then have len: "length (map Some t) \<le> length options" and b: "binary t"
    and f: "ct \<le> bound" by (simp_all add: binary_def)
  from t have e: "vt = total_value options (map Some t)" "ct = total_cost options (map Some t)"
    by (simp_all add: compute_value_total [OF len] compute_cost_total [OF len])
  from t have "length t = length options" by simp
  from optimal_best [OF assms this b] f e have "\<not> better (vt, ct) (v, c)" by simp
  then show "vt \<le> v" "vt = v \<Longrightarrow> c \<le> ct" by (auto simp: better_def)
qed

text \<open>A negative bound: no node is feasible, and the all-excluded candidate stays.\<close>

lemma bb_loop_all_pruned:
  assumes nn: "\<forall>it\<in>set options. 0 \<le> snd it" and neg: "bound < 0"
  shows "frontier_ok options branches \<Longrightarrow> bb_loop options bound branches best = Inr best"
proof (induction branches)
  case Nil
  show ?case by simp
next
  case (Cons s branches)
  then have len: "length s = length options" and rest: "frontier_ok options branches"
    by (simp_all add: frontier_ok_def)
  from len have "length s \<le> length options" by simp
  from total_cost_nonneg [OF nn this] neg have "\<not> total_cost options s \<le> bound" by simp
  from bb_body_pruned [OF len this] Cons.IH [OF rest] show ?case by simp
qed

lemma bf_loop_all_rejected:
  assumes nn: "\<forall>it\<in>set options. 0 \<le> snd it" and neg: "bound < 0"
    and best: "snd (snd best) \<le> 0"
  shows "\<forall>t\<in>set sols. length t = length options \<Longrightarrow> bf_loop options bound sols best = Inr best"
proof (induction sols)
  case Nil
  show ?case by simp
next
  case (Cons s sols)
  then have len: "length (map Some s) \<le> length options"
    and rest: "\<forall>t\<in>set sols. length t = length options" by simp_all
  from total_cost_nonneg [OF nn len] neg best
  have "\<not> total_cost options (map Some s) \<le> bound"
    "\<not> total_cost options (map Some s) < snd (snd best)" by simp_all
  with Cons.IH [OF rest] show ?case
    by (simp add: compute_cost_total [OF len] compute_value_total [OF len])
qed

lemma frontier_root:
  "\<exists>bs. expand_branches (replicate (length options) None) = Inr bs \<and> frontier_ok options bs"
proof -
  from expand_branches_total obtain bs where
    bs: "expand_branches (replicate (length options) None) = Inr bs" by blast
  from children_shape [OF bs tristate_root] have "frontier_ok options bs"
    by (simp add: frontier_ok_def)
  with bs show ?thesis by blast
qed

lemma bb_negative:
  assumes "\<forall>it\<in>set options. 0 \<le> snd it" "bound < 0"
  shows "branch_and_bound options bound = Inl AssertionError"
proof -
  from frontier_root obtain bs where
    bs: "expand_branches (replicate (length options) None) = Inr bs" "frontier_ok options bs"
    by blast
  from bb_loop_all_pruned [OF assms bs(2)] bs(1) assms(2) show ?thesis
    by (simp add: branch_and_bound_def)
qed

lemma bf_negative:
  assumes "\<forall>it\<in>set options. 0 \<le> snd it" "bound < 0"
  shows "brute_force options bound = Inl AssertionError"
proof -
  have "\<forall>t\<in>set (product_range2 (length options)). length t = length options"
    by (simp add: set_product_range2)
  from bf_loop_all_rejected [OF assms _ this, of "(replicate (length options) 0, 0, 0)"] assms(2)
  show ?thesis by (simp add: brute_force_def)
qed

lemma nonneg_costs: "\<forall>(v, c)\<in>set items. 0 \<le> v \<and> 0 \<le> c \<Longrightarrow> \<forall>it\<in>set items. 0 \<le> snd it"
  by auto

section \<open>Monotonicity, the trivial solution, and the loops step by step\<close>

lemma optimal_mono:
  assumes "optimal options b1 r1" "optimal options b2 r2" "b1 \<le> b2"
  shows "fst (snd r1) \<le> fst (snd r2)"
proof -
  note s = optimal_shape [OF assms(1)]
  from s(5) assms(3) have "total_cost options (map Some (fst r1)) \<le> b2" by simp
  from optimal_best [OF assms(2) s(1,2) this] s(3) have "\<not> better (snd r1) (snd r2)" by simp
  then show ?thesis by (auto simp: better_def)
qed

lemma optimal_trivial:
  assumes nn: "\<forall>it\<in>set options. 0 \<le> snd it"
    and big: "\<forall>it\<in>set options. bound < snd it"
    and opt: "optimal options bound r"
  shows "r = (replicate (length options) 0, 0, 0)"
proof -
  note s = optimal_shape [OF opt]
  let ?a = "fst r"
  have none: "included (map Some ?a) = {}"
  proof (rule ccontr)
    assume "included (map Some ?a) \<noteq> {}"
    then obtain i where i: "i \<in> included (map Some ?a)" by blast
    then have il: "i < length options" using s(1) by (simp add: included_def)
    have "0 \<le> snd (options ! j)" if "j \<in> included (map Some ?a) - {i}" for j
    proof -
      from that have "j < length options" using s(1) by (simp add: included_def)
      then have "options ! j \<in> set options" by simp
      with nn show ?thesis by blast
    qed
    from member_le_sum [OF i this finite_included]
    have "snd (options ! i) \<le> total_cost options (map Some ?a)" by (simp add: total_cost_def)
    moreover from il have "options ! i \<in> set options" by simp
    with big have "bound < snd (options ! i)" by blast
    ultimately show False using s(5) by simp
  qed
  have "?a = replicate (length options) 0"
  proof (rule nth_equalityI)
    show "length ?a = length (replicate (length options) (0::int))" using s(1) by simp
  next
    fix i
    assume i: "i < length ?a"
    then have "?a ! i \<in> set ?a" by simp
    with s(2) have "?a ! i = 0 \<or> ?a ! i = 1" by (auto simp: binary_def)
    moreover have "?a ! i \<noteq> 1"
    proof
      assume "?a ! i = 1"
      with i have "i \<in> included (map Some ?a)" by (simp add: included_def)
      with none show False by simp
    qed
    ultimately show "?a ! i = replicate (length options) 0 ! i" using i s(1) by simp
  qed
  moreover from s(3) none have "snd r = (0, 0)" by (simp add: total_value_def total_cost_def)
  ultimately show ?thesis by (simp add: prod_eq_iff)
qed

text \<open>The loop of \<open>brute_force\<close> over a sequence in two parts.\<close>

lemma bf_loop_append:
  "bf_loop options bound (xs @ ys) best
     = (case bf_loop options bound xs best of Inl e \<Rightarrow> Inl e
        | Inr best' \<Rightarrow> bf_loop options bound ys best')"
  by (induction xs arbitrary: best) (auto split: sum.splits)

lemma bf_prefix_feasible:
  assumes "0 \<le> bound"
  shows "\<exists>best. bf_loop options bound (take k (product_range2 (length options)))
                 (replicate (length options) 0, 0, 0) = Inr best
          \<and> snd (snd best) \<le> bound"
proof -
  have "\<forall>t\<in>set (take k (product_range2 (length options))). length t = length options"
    using set_take_subset [of k "product_range2 (length options)"]
    by (auto simp: set_product_range2)
  from bf_loop_correct [OF this, of "(replicate (length options) 0, 0, 0)" bound] assms
  show ?thesis by auto
qed

text \<open>The loop of \<open>branch_and_bound\<close>, iteration by iteration.\<close>

lemma bb_body_invariant:
  assumes "frontier_ok options (solution # branches)"
  shows "\<exists>branches' best'. bb_body options bound solution branches best = Inr (branches', best')
           \<and> frontier_ok options branches'
           \<and> (snd (snd best) \<le> bound \<longrightarrow> snd (snd best') \<le> bound)"
proof -
  from assms have len: "length solution = length options" and tri: "tristate solution"
    and rest: "frontier_ok options branches" by (simp_all add: frontier_ok_def)
  show ?thesis
  proof (cases "total_cost options solution \<le> bound")
    case False
    from bb_body_pruned [OF len False] rest show ?thesis by simp
  next
    case True
    from expand_branches_total obtain bs where bs: "expand_branches solution = Inr bs" by blast
    have "frontier_ok options (branches @ bs)"
      using rest children_shape [OF bs tri] len by (auto simp: frontier_ok_def)
    with bb_body_feasible [OF len True bs, of branches best] True show ?thesis by simp
  qed
qed

lemma bb_run_invariant:
  "frontier_ok options branches \<Longrightarrow> snd (snd best) \<le> bound \<Longrightarrow>
     \<exists>branches' best'. bb_run k options bound branches best = Inr (branches', best')
        \<and> frontier_ok options branches' \<and> snd (snd best') \<le> bound"
proof (induction k arbitrary: branches best)
  case 0
  then show ?case by simp
next
  case (Suc k)
  show ?case
  proof (cases branches)
    case Nil
    with Suc.prems show ?thesis by simp
  next
    case (Cons s rest)
    from bb_body_invariant [of options s rest bound best] Suc.prems Cons
    obtain branches1 best1 where
      b: "bb_body options bound s rest best = Inr (branches1, best1)"
         "frontier_ok options branches1" "snd (snd best1) \<le> bound" by blast
    from Suc.IH [OF b(2,3)] b(1) Cons show ?thesis by simp
  qed
qed

lemma bb_run_loop:
  "bb_run k options bound branches best = Inr (branches', best') \<Longrightarrow>
     bb_loop options bound branches best = bb_loop options bound branches' best'"
proof (induction k arbitrary: branches best)
  case 0
  then show ?case by simp
next
  case (Suc k)
  show ?case
  proof (cases branches)
    case Nil
    with Suc.prems show ?thesis by simp
  next
    case (Cons s rest)
    with Suc.prems obtain branches1 best1 where
      b: "bb_body options bound s rest best = Inr (branches1, best1)"
         "bb_run k options bound branches1 best1 = Inr (branches', best')"
      by (auto split: sum.splits)
    from Suc.IH [OF b(2)] b(1) Cons show ?thesis by simp
  qed
qed

lemma weight_zero: "weight branches = 0 \<Longrightarrow> branches = []"
proof (cases branches)
  case Nil
  then show ?thesis by simp
next
  case (Cons s rest)
  assume "weight branches = 0"
  with Cons tree_size_pos [of "unset s"] show ?thesis by (simp add: weight_Cons)
qed

lemma bb_run_empties:
  "frontier_ok options branches \<Longrightarrow> weight branches \<le> k \<Longrightarrow>
     \<exists>best'. bb_run k options bound branches best = Inr ([], best')"
proof (induction k arbitrary: branches best)
  case 0
  then have "branches = []" by (simp add: weight_zero)
  then have "bb_run 0 options bound branches best = Inr ([], best)" by simp
  then show ?case by (rule exI)
next
  case (Suc k)
  show ?case
  proof (cases branches)
    case Nil
    then have "bb_run (Suc k) options bound branches best = Inr ([], best)" by simp
    then show ?thesis by (rule exI)
  next
    case (Cons s rest)
    from bb_body_invariant [of options s rest bound best] Suc.prems(1) Cons
    obtain branches1 best1 where
      b: "bb_body options bound s rest best = Inr (branches1, best1)"
         "frontier_ok options branches1" by blast
    from bb_body_weight [OF b(1)] Suc.prems(2) Cons have "weight branches1 \<le> k" by simp
    from Suc.IH [OF b(2) this] b(1) Cons show ?thesis by simp
  qed
qed

lemma tree_size_power: "Suc (tree_size k) = 2 ^ Suc k"
  by (induction k) simp_all

lemma unset_root: "unset (replicate n None) = n"
  by (simp add: unset_def)

section \<open>The shape of the decision tree\<close>

lemma unset_zero: "unset s = 0 \<longleftrightarrow> None \<notin> set s"
proof -
  have "unset s = 0 \<longleftrightarrow> (\<forall>x\<in>set s. x \<noteq> None)"
    by (simp add: unset_def filter_empty_conv)
  also have "\<dots> \<longleftrightarrow> None \<notin> set s" by metis
  finally show ?thesis .
qed

lemma children_partial:
  assumes "unset s = Suc m"
  shows "length (children s) = 2 \<and> (\<forall>s'\<in>set (children s). length s' = length s \<and> unset s' = m)"
proof -
  from assms have "None \<in> set s" using unset_zero [of s] by simp
  from expand_branches_partial [OF this] obtain i where
    i: "i < length s" "s ! i = None"
    and e: "expand_branches s = Inr [s[i := Some 0], s[i := Some 1]]" by blast
  from unset_update [OF i] assms have "unset (s[i := Some 0]) = m" "unset (s[i := Some 1]) = m"
    by simp_all
  with e show ?thesis by (simp add: children_def)
qed

lemma children_complete: "unset s = 0 \<Longrightarrow> children s = []"
  by (simp add: children_def unset_zero expand_branches_complete)

lemma length_concat_pairs:
  "\<forall>x\<in>set xs. length (f x) = 2 \<Longrightarrow> length (concat (map f xs)) = 2 * length xs"
  by (induction xs) simp_all

lemma unset_le_length: "unset s \<le> length s"
  by (simp add: unset_def)

lemma descendants_shape:
  "d \<le> unset s \<Longrightarrow> length (descendants s d) = 2 ^ d
     \<and> (\<forall>s'\<in>set (descendants s d). length s' = length s \<and> unset s' = unset s - d)"
proof (induction d)
  case 0
  show ?case by simp
next
  case (Suc d)
  from Suc.prems have "d \<le> unset s" by simp
  from Suc.IH [OF this] have IH1: "length (descendants s d) = 2 ^ d"
    and IH2: "\<And>x. x \<in> set (descendants s d) \<Longrightarrow> length x = length s \<and> unset x = unset s - d"
    by blast+
  from Suc.prems have m: "unset s - d = Suc (unset s - Suc d)" by arith
  have c: "length (children x) = 2
             \<and> (\<forall>s'\<in>set (children x). length s' = length s \<and> unset s' = unset s - Suc d)"
    if x: "x \<in> set (descendants s d)" for x
  proof -
    from IH2 [OF x] have lx: "length x = length s" and "unset x = unset s - d" by blast+
    with m have "unset x = Suc (unset s - Suc d)" by (simp only:)
    from children_partial [OF this] have "length (children x) = 2"
      and "\<And>s'. s' \<in> set (children x) \<Longrightarrow> length s' = length x \<and> unset s' = unset s - Suc d"
      by blast+
    with lx show ?thesis by metis
  qed
  then have "\<forall>x\<in>set (descendants s d). length (children x) = 2" by blast
  then have "length (descendants s (Suc d)) = 2 * length (descendants s d)"
    by (simp only: descendants.simps length_concat_pairs)
  with IH1 have len: "length (descendants s (Suc d)) = 2 ^ Suc d" by simp
  have "length s' = length s \<and> unset s' = unset s - Suc d"
    if "s' \<in> set (descendants s (Suc d))" for s'
  proof -
    from that obtain x where "x \<in> set (descendants s d)" "s' \<in> set (children x)" by auto
    with c show ?thesis by blast
  qed
  with len show ?case by blast
qed

lemma descendants_leaves:
  assumes "s' \<in> set (descendants s (unset s))"
  shows "None \<notin> set s' \<and> expand_branches s' = Inr []"
proof -
  have "unset s \<le> unset s" by (rule order_refl)
  from descendants_shape [OF this] assms have "unset s' = unset s - unset s" by blast
  also have "\<dots> = 0" by (rule diff_self_eq_0)
  finally have u: "unset s' = 0" .
  have n: "None \<notin> set s'" using u unset_zero [of s'] by blast
  from n expand_branches_complete [OF n] show ?thesis by (rule conjI)
qed

lemma descendants_bottom: "descendants s (Suc (unset s)) = []"
proof -
  have "children x = []" if "x \<in> set (descendants s (unset s))" for x
  proof -
    have "unset s \<le> unset s" by (rule order_refl)
    from descendants_shape [OF this] that have "unset x = unset s - unset s" by blast
    also have "\<dots> = 0" by (rule diff_self_eq_0)
    finally show ?thesis by (rule children_complete)
  qed
  then show ?thesis by simp
qed

section \<open>The claims\<close>

text \<open>
  C6. An assignment with an unset entry has exactly two children: both are the
  assignment itself except at its lowest unset index, where the first child is excluded
  (0) and the second is included (1). An assignment with no unset entry has no children.
\<close>

theorem expand_branches_children:
  "(None \<in> set s \<longrightarrow>
      (\<exists>i<length s. s ! i = None \<and> (\<forall>j<i. s ! j \<noteq> None) \<and>
         (\<exists>a b. expand_branches s = Inr [a, b] \<and> length a = length s \<and> length b = length s
            \<and> a ! i = Some 0 \<and> b ! i = Some 1
            \<and> (\<forall>j<length s. j \<noteq> i \<longrightarrow> a ! j = s ! j \<and> b ! j = s ! j))))
   \<and> (None \<notin> set s \<longrightarrow> expand_branches s = Inr [])"
proof (intro conjI impI)
  assume "None \<in> set s"
  from expand_branches_partial [OF this] obtain i where
    i: "i < length s" "s ! i = None" "\<forall>j<i. s ! j \<noteq> None"
    and e: "expand_branches s = Inr [s[i := Some 0], s[i := Some 1]]" by blast
  have "length (s[i := Some 0]) = length s" "length (s[i := Some 1]) = length s"
    "s[i := Some 0] ! i = Some 0" "s[i := Some 1] ! i = Some 1"
    "\<forall>j<length s. j \<noteq> i \<longrightarrow> s[i := Some 0] ! j = s ! j \<and> s[i := Some 1] ! j = s ! j"
    using i(1) by simp_all
  with i e show "\<exists>i<length s. s ! i = None \<and> (\<forall>j<i. s ! j \<noteq> None) \<and>
         (\<exists>a b. expand_branches s = Inr [a, b] \<and> length a = length s \<and> length b = length s
            \<and> a ! i = Some 0 \<and> b ! i = Some 1
            \<and> (\<forall>j<length s. j \<noteq> i \<longrightarrow> a ! j = s ! j \<and> b ! j = s ! j))"
    by blast
next
  assume "None \<notin> set s"
  then show "expand_branches s = Inr []" by (rule expand_branches_complete)
qed

theorem expand_branches_children_witness:
  "(\<exists>i<length [Some (1::int), None, None].
       [Some (1::int), None, None] ! i = None
     \<and> (\<forall>j<i. [Some (1::int), None, None] ! j \<noteq> None)
     \<and> (\<exists>a b. expand_branches [Some 1, None, None] = Inr [a, b]
            \<and> length a = length [Some (1::int), None, None]
            \<and> length b = length [Some (1::int), None, None]
            \<and> a ! i = Some 0 \<and> b ! i = Some 1
            \<and> (\<forall>j<length [Some (1::int), None, None]. j \<noteq> i \<longrightarrow>
                  a ! j = [Some (1::int), None, None] ! j
                \<and> b ! j = [Some (1::int), None, None] ! j)))
   \<and> expand_branches [Some 1, Some 0] = Inr []
   \<and> expand_branches [Some 1, None, None]
       = Inr [[Some 1, Some 0, None], [Some 1, Some 1, None]]"
proof -
  have a: "None \<in> set [Some (1::int), None, None]" by simp
  have b: "None \<notin> set [Some (1::int), Some 0]" by simp
  note 1 = expand_branches_children [of "[Some 1, None, None]", THEN conjunct1, THEN mp, OF a]
  note 2 = expand_branches_children [of "[Some 1, Some 0]", THEN conjunct2, THEN mp, OF b]
  have 3: "expand_branches [Some 1, None, None]
             = Inr [[Some 1, Some 0, None], [Some 1, Some 1, None]]"
    by (simp add: expand_branches_def)
  from 1 2 3 show ?thesis by (intro conjI)
qed

text \<open>
  C7. For an assignment as long as the item sequence, \<open>compute_cost\<close> is the sum of
  the costs, and \<open>compute_value\<close> the sum of the values, of the items at the included
  indices. Entries that are not included contribute nothing: two assignments that include
  the same indices get the same cost and the same value. (The functions only read their
  arguments, so each is a function of its inputs in the model.)
\<close>

theorem evaluator_sums:
  assumes "length solution = length options"
  shows "compute_cost solution options
           = Inr (\<Sum>i | i < length solution \<and> solution ! i = Some 1. snd (options ! i))
       \<and> compute_value solution options
           = Inr (\<Sum>i | i < length solution \<and> solution ! i = Some 1. fst (options ! i))
       \<and> (\<forall>solution' :: entry list. length solution' = length solution
             \<and> (\<forall>i<length solution. solution' ! i = Some 1 \<longleftrightarrow> solution ! i = Some 1)
            \<longrightarrow> compute_cost solution' options = compute_cost solution options
              \<and> compute_value solution' options = compute_value solution options)"
proof (intro conjI allI impI)
  show "compute_cost solution options
           = Inr (\<Sum>i | i < length solution \<and> solution ! i = Some 1. snd (options ! i))"
    using assms by (simp add: compute_cost_sum)
  show "compute_value solution options
           = Inr (\<Sum>i | i < length solution \<and> solution ! i = Some 1. fst (options ! i))"
    using assms by (simp add: compute_value_sum)
next
  fix solution' :: "entry list"
  assume a: "length solution' = length solution
             \<and> (\<forall>i<length solution. solution' ! i = Some 1 \<longleftrightarrow> solution ! i = Some 1)"
  then have "{i. i < length solution' \<and> solution' ! i = Some 1}
               = {i. i < length solution \<and> solution ! i = Some 1}" by auto
  with a assms show "compute_cost solution' options = compute_cost solution options"
    by (simp add: compute_cost_sum)
next
  fix solution' :: "entry list"
  assume a: "length solution' = length solution
             \<and> (\<forall>i<length solution. solution' ! i = Some 1 \<longleftrightarrow> solution ! i = Some 1)"
  then have "{i. i < length solution' \<and> solution' ! i = Some 1}
               = {i. i < length solution \<and> solution ! i = Some 1}" by auto
  with a assms show "compute_value solution' options = compute_value solution options"
    by (simp add: compute_value_sum)
qed

theorem evaluator_sums_witness:
  "compute_cost [Some 1, None, Some 0, Some 1] [(10, 5), (3, 4), (7, 2), (1, 1)]
     = Inr (\<Sum>i | i < length [Some (1::int), None, Some 0, Some 1]
                    \<and> [Some (1::int), None, Some 0, Some 1] ! i = Some 1.
              snd ([(10::int, 5::int), (3, 4), (7, 2), (1, 1)] ! i))
   \<and> compute_value [Some 1, None, Some 0, Some 1] [(10, 5), (3, 4), (7, 2), (1, 1)]
     = Inr (\<Sum>i | i < length [Some (1::int), None, Some 0, Some 1]
                    \<and> [Some (1::int), None, Some 0, Some 1] ! i = Some 1.
              fst ([(10::int, 5::int), (3, 4), (7, 2), (1, 1)] ! i))
   \<and> compute_cost [Some 1, Some 0, None, Some 1] [(10, 5), (3, 4), (7, 2), (1, 1)]
     = compute_cost [Some 1, None, Some 0, Some 1] [(10, 5), (3, 4), (7, 2), (1, 1)]
   \<and> compute_value [Some 1, Some 0, None, Some 1] [(10, 5), (3, 4), (7, 2), (1, 1)]
     = compute_value [Some 1, None, Some 0, Some 1] [(10, 5), (3, 4), (7, 2), (1, 1)]
   \<and> compute_cost [Some 1, None, Some 0, Some 1] [(10, 5), (3, 4), (7, 2), (1, 1)] = Inr 6
   \<and> compute_value [Some 1, None, Some 0, Some 1] [(10, 5), (3, 4), (7, 2), (1, 1)] = Inr 11"
proof -
  have len: "length [Some (1::int), None, Some 0, Some 1]
               = length [(10::int, 5::int), (3, 4), (7, 2), (1, 1)]" by simp
  note t = evaluator_sums [OF len]
  have same: "length [Some (1::int), Some 0, None, Some 1] = length [Some (1::int), None, Some 0, Some 1]
      \<and> (\<forall>i<length [Some (1::int), None, Some 0, Some 1].
            [Some (1::int), Some 0, None, Some 1] ! i = Some 1
              \<longleftrightarrow> [Some (1::int), None, Some 0, Some 1] ! i = Some 1)"
    by (simp add: nth_Cons' less_Suc_eq numeral_eq_Suc)
  from t have u: "compute_cost [Some 1, Some 0, None, Some 1] [(10, 5), (3, 4), (7, 2), (1, 1)]
     = compute_cost [Some 1, None, Some 0, Some 1] [(10, 5), (3, 4), (7, 2), (1, 1)]
   \<and> compute_value [Some 1, Some 0, None, Some 1] [(10, 5), (3, 4), (7, 2), (1, 1)]
     = compute_value [Some 1, None, Some 0, Some 1] [(10, 5), (3, 4), (7, 2), (1, 1)]"
    using same by blast
  have c: "compute_cost [Some 1, None, Some 0, Some 1] [(10, 5), (3, 4), (7, 2), (1, 1)] = Inr 6"
    by code_simp
  have v: "compute_value [Some 1, None, Some 0, Some 1] [(10, 5), (3, 4), (7, 2), (1, 1)] = Inr 11"
    by code_simp
  show ?thesis
    by (intro conjI t [THEN conjunct1] t [THEN conjunct2, THEN conjunct1]
          u [THEN conjunct1] u [THEN conjunct2] c v)
qed

text \<open>
  C2. For items with non-negative values and costs and a bound that is not negative, each
  solver returns a complete 0/1 assignment together with its value and its cost: the
  cost is within the bound, value and cost are what the evaluator computes for the
  assignment, no 0/1 assignment within the bound has more value, and none of those with
  the same value costs less.
\<close>

theorem solvers_optimal:
  assumes "\<forall>(v, c)\<in>set items. 0 \<le> v \<and> 0 \<le> c" and "0 \<le> bound"
  shows "\<forall>solver\<in>{branch_and_bound, brute_force}.
     \<exists>a v c. solver items bound = Inr (a, v, c)
       \<and> length a = length items \<and> set a \<subseteq> {0, 1} \<and> c \<le> bound
       \<and> compute_value (map Some a) items = Inr v
       \<and> compute_cost (map Some a) items = Inr c
       \<and> (\<forall>t vt ct. length t = length items \<and> set t \<subseteq> {0, 1}
             \<and> compute_value (map Some t) items = Inr vt
             \<and> compute_cost (map Some t) items = Inr ct \<and> ct \<le> bound
            \<longrightarrow> vt \<le> v \<and> (vt = v \<longrightarrow> c \<le> ct))"
proof -
  from bb_optimal [OF nonneg_costs [OF assms(1)] assms(2)] obtain a v c where
    "branch_and_bound items bound = Inr (a, v, c)" "optimal items bound (a, v, c)"
    by (metis prod_cases3)
  moreover from bf_optimal [OF assms(2)] obtain a' v' c' where
    "brute_force items bound = Inr (a', v', c')" "optimal items bound (a', v', c')"
    by (metis prod_cases3)
  ultimately show ?thesis
    using optimal_evaluator [of items bound a v c] optimal_evaluator [of items bound a' v' c']
    by blast
qed

theorem solvers_optimal_witness:
  "\<exists>a v c. branch_and_bound [(10, 5), (3, 4)] 5 = Inr (a, v, c)
     \<and> brute_force [(10, 5), (3, 4)] 5 = Inr (a, v, c)
     \<and> a = [1, 0] \<and> v = 10 \<and> c = 5
     \<and> compute_value (map Some a) [(10, 5), (3, 4)] = Inr v
     \<and> compute_cost (map Some a) [(10, 5), (3, 4)] = Inr c
     \<and> (\<forall>t vt ct. length t = length [(10::int, 5::int), (3, 4)] \<and> set t \<subseteq> {0, 1}
             \<and> compute_value (map Some t) [(10, 5), (3, 4)] = Inr vt
             \<and> compute_cost (map Some t) [(10, 5), (3, 4)] = Inr ct \<and> ct \<le> 5
            \<longrightarrow> vt \<le> v \<and> (vt = v \<longrightarrow> c \<le> ct))"
proof -
  have h: "\<forall>(v, c)\<in>set [(10::int, 5::int), (3, 4)]. 0 \<le> v \<and> 0 \<le> c" by simp
  have bb: "branch_and_bound [(10, 5), (3, 4)] 5 = Inr ([1, 0], 10, 5)" by code_simp
  have bf: "brute_force [(10, 5), (3, 4)] 5 = Inr ([1, 0], 10, 5)" by code_simp
  have b: "(0::int) \<le> 5" by simp
  from bspec [OF solvers_optimal [OF h b] insertI1] obtain a v c where
    r: "branch_and_bound [(10, 5), (3, 4)] 5 = Inr (a, v, c)"
       "compute_value (map Some a) [(10, 5), (3, 4)] = Inr v"
       "compute_cost (map Some a) [(10, 5), (3, 4)] = Inr c"
       "\<forall>t vt ct. length t = length [(10::int, 5::int), (3, 4)] \<and> set t \<subseteq> {0, 1}
             \<and> compute_value (map Some t) [(10, 5), (3, 4)] = Inr vt
             \<and> compute_cost (map Some t) [(10, 5), (3, 4)] = Inr ct \<and> ct \<le> 5
            \<longrightarrow> vt \<le> v \<and> (vt = v \<longrightarrow> c \<le> ct)"
    by blast
  from r(1) bb have "a = [1, 0]" "v = 10" "c = 5" by simp_all
  with r bf show ?thesis by blast
qed

text \<open>
  C1. For items with non-negative values and costs and a bound that is not negative, both
  solvers return, with the same value and the same cost (the assignments may differ).
  For a negative bound the code returns no pair at all: both solvers stop at their final
  assertion, where the docstring of \<open>branch_and_bound\<close> promises the trivial
  solution.
\<close>

theorem solvers_agree:
  assumes "\<forall>(v, c)\<in>set items. 0 \<le> v \<and> 0 \<le> c"
  shows "(0 \<le> bound \<longrightarrow>
            (\<exists>a a' v c. branch_and_bound items bound = Inr (a, v, c)
                       \<and> brute_force items bound = Inr (a', v, c)))
       \<and> (bound < 0 \<longrightarrow>
            branch_and_bound items bound = Inl AssertionError
          \<and> brute_force items bound = Inl AssertionError)"
proof (intro conjI impI)
  assume b: "0 \<le> bound"
  from bb_optimal [OF nonneg_costs [OF assms] b] obtain r where
    r: "branch_and_bound items bound = Inr r" "optimal items bound r" by blast
  from bf_optimal [OF b] obtain r' where
    r': "brute_force items bound = Inr r'" "optimal items bound r'" by blast
  from optimal_unique [OF r(2) r'(2)] have e: "snd r = snd r'" .
  have "r = (fst r, fst (snd r), snd (snd r))" by simp
  moreover have "r' = (fst r', fst (snd r), snd (snd r))" unfolding e by simp
  ultimately show "\<exists>a a' v c. branch_and_bound items bound = Inr (a, v, c)
                     \<and> brute_force items bound = Inr (a', v, c)"
    using r(1) r'(1) by metis
next
  assume "bound < 0"
  from bb_negative [OF nonneg_costs [OF assms] this]
  show "branch_and_bound items bound = Inl AssertionError" .
next
  assume "bound < 0"
  from bf_negative [OF nonneg_costs [OF assms] this]
  show "brute_force items bound = Inl AssertionError" .
qed

theorem solvers_agree_witness:
  "(\<exists>a a' v c. branch_and_bound [(3, 2), (3, 1), (0, 0)] 2 = Inr (a, v, c)
                \<and> brute_force [(3, 2), (3, 1), (0, 0)] 2 = Inr (a', v, c) \<and> v = 3 \<and> c = 1)
   \<and> branch_and_bound [(3, 2), (3, 1), (0, 0)] (- 3) = Inl AssertionError
   \<and> brute_force [(3, 2), (3, 1), (0, 0)] (- 3) = Inl AssertionError"
proof -
  have h: "\<forall>(v, c)\<in>set [(3::int, 2::int), (3, 1), (0, 0)]. 0 \<le> v \<and> 0 \<le> c" by simp
  have bb: "branch_and_bound [(3, 2), (3, 1), (0, 0)] 2 = Inr ([0, 1, 0], 3, 1)" by code_simp
  from solvers_agree [OF h, of 2] solvers_agree [OF h, of "- 3"] bb show ?thesis by simp
qed

theorem solvers_agree_failing_input:
  "branch_and_bound [(3, 2), (3, 1)] (- 2) = Inl AssertionError
   \<and> brute_force [(3, 2), (3, 1)] (- 2) = Inl AssertionError"
  by code_simp

text \<open>
  C4. What the code does for a negative bound, with items of non-negative values and
  costs: no candidate is feasible, both loops end with the all-excluded candidate of
  value 0 and cost 0 as the best one, and the final assertion
  \<open>best_solution[2] <= bound\<close> fails in both solvers. Neither returns the
  all-excluded assignment, which is what the docstring of \<open>branch_and_bound\<close>
  promises when there is no feasible solution.
\<close>

theorem negative_bound_asserts:
  assumes "\<forall>(v, c)\<in>set items. 0 \<le> v \<and> 0 \<le> c" and "bound < 0"
  shows "(\<exists>bs. expand_branches (replicate (length items) None) = Inr bs
            \<and> bb_loop items bound bs (replicate (length items) (Some 0), 0, 0)
                 = Inr (replicate (length items) (Some 0), 0, 0))
       \<and> bf_loop items bound (product_range2 (length items)) (replicate (length items) 0, 0, 0)
            = Inr (replicate (length items) 0, 0, 0)
       \<and> branch_and_bound items bound = Inl AssertionError
       \<and> brute_force items bound = Inl AssertionError"
proof (intro conjI)
  note nn = nonneg_costs [OF assms(1)]
  from frontier_root obtain bs where
    bs: "expand_branches (replicate (length items) None) = Inr bs" "frontier_ok items bs"
    by blast
  from bb_loop_all_pruned [OF nn assms(2) bs(2)] bs(1)
  show "\<exists>bs. expand_branches (replicate (length items) None) = Inr bs
            \<and> bb_loop items bound bs (replicate (length items) (Some 0), 0, 0)
                 = Inr (replicate (length items) (Some 0), 0, 0)" by blast
  have "\<forall>t\<in>set (product_range2 (length items)). length t = length items"
    by (simp add: set_product_range2)
  from bf_loop_all_rejected [OF nn assms(2) _ this, of "(replicate (length items) 0, 0, 0)"]
  show "bf_loop items bound (product_range2 (length items)) (replicate (length items) 0, 0, 0)
            = Inr (replicate (length items) 0, 0, 0)" by simp
  from bb_negative [OF nn assms(2)]
  show "branch_and_bound items bound = Inl AssertionError" .
  from bf_negative [OF nn assms(2)]
  show "brute_force items bound = Inl AssertionError" .
qed

theorem negative_bound_asserts_witness:
  "bb_loop [(10, 5)] (- 1) [[Some 0], [Some 1]] ([Some 0], 0, 0) = Inr ([Some 0], 0, 0)
   \<and> bf_loop [(10, 5)] (- 1) (product_range2 1) ([0], 0, 0) = Inr ([0], 0, 0)
   \<and> branch_and_bound [(10, 5)] (- 1) = Inl AssertionError
   \<and> brute_force [(10, 5)] (- 1) = Inl AssertionError"
proof -
  have h: "\<forall>(v, c)\<in>set [(10::int, 5::int)]. 0 \<le> v \<and> 0 \<le> c" by simp
  have n: "(- 1 :: int) < 0" by simp
  have l: "length [(10::int, 5::int)] = 1" by simp
  have e: "expand_branches (replicate 1 None) = Inr [[Some 0], [Some 1]]"
    by (simp add: expand_branches_def)
  have r: "replicate 1 (Some (0::int)) = [Some 0]" "replicate 1 (0::int) = [0]" by simp_all
  note t = negative_bound_asserts [OF h n, unfolded l, unfolded e r]
  from t show ?thesis by blast
qed

theorem negative_bound_failing_input:
  "branch_and_bound [] (- 1) = Inl AssertionError \<and> brute_force [] (- 1) = Inl AssertionError"
  by code_simp

text \<open>
  C3. For items with non-negative values and costs and a bound that is not negative, both
  solvers return (no assertion fires, no other error) and the returned cost is within the
  bound. The best candidate is within the bound at every point of the search: after any
  number \<open>k\<close> of iterations of the loop of \<open>branch_and_bound\<close>, and after any
  number \<open>k\<close> of candidates of the loop of \<open>brute_force\<close>.
\<close>

theorem search_stays_feasible:
  assumes "\<forall>(v, c)\<in>set items. 0 \<le> v \<and> 0 \<le> c" and "0 \<le> bound"
  shows "(\<exists>a v c. branch_and_bound items bound = Inr (a, v, c) \<and> c \<le> bound)
       \<and> (\<exists>a v c. brute_force items bound = Inr (a, v, c) \<and> c \<le> bound)
       \<and> (\<exists>bs. expand_branches (replicate (length items) None) = Inr bs
             \<and> (\<forall>k. \<exists>branches best.
                   bb_run k items bound bs (replicate (length items) (Some 0), 0, 0)
                     = Inr (branches, best)
                   \<and> snd (snd best) \<le> bound))
       \<and> (\<forall>k. \<exists>best.
             bf_loop items bound (take k (product_range2 (length items)))
               (replicate (length items) 0, 0, 0) = Inr best
             \<and> snd (snd best) \<le> bound)"
proof (intro conjI)
  from bb_optimal [OF nonneg_costs [OF assms(1)] assms(2)] obtain r where
    "branch_and_bound items bound = Inr r" "optimal items bound r" by blast
  with optimal_shape(4) [of items bound r]
  show "\<exists>a v c. branch_and_bound items bound = Inr (a, v, c) \<and> c \<le> bound"
    by (cases r) auto
next
  from bf_optimal [OF assms(2)] obtain r where
    "brute_force items bound = Inr r" "optimal items bound r" by blast
  with optimal_shape(4) [of items bound r]
  show "\<exists>a v c. brute_force items bound = Inr (a, v, c) \<and> c \<le> bound"
    by (cases r) auto
next
  from frontier_root obtain bs where
    bs: "expand_branches (replicate (length items) None) = Inr bs" "frontier_ok items bs"
    by blast
  have "\<exists>branches best.
          bb_run k items bound bs (replicate (length items) (Some 0), 0, 0) = Inr (branches, best)
          \<and> snd (snd best) \<le> bound" for k
    using bb_run_invariant [OF bs(2), of "(replicate (length items) (Some 0), 0, 0)" bound k]
      assms(2) by auto
  with bs(1)
  show "\<exists>bs. expand_branches (replicate (length items) None) = Inr bs
             \<and> (\<forall>k. \<exists>branches best.
                   bb_run k items bound bs (replicate (length items) (Some 0), 0, 0)
                     = Inr (branches, best)
                   \<and> snd (snd best) \<le> bound)" by blast
next
  from bf_prefix_feasible [OF assms(2)]
  show "\<forall>k. \<exists>best.
             bf_loop items bound (take k (product_range2 (length items)))
               (replicate (length items) 0, 0, 0) = Inr best
             \<and> snd (snd best) \<le> bound" by blast
qed

theorem search_stays_feasible_witness:
  "(\<exists>a v c. branch_and_bound [(10, 5), (3, 4)] 5 = Inr (a, v, c) \<and> c \<le> 5)
   \<and> (\<exists>a v c. brute_force [(10, 5), (3, 4)] 5 = Inr (a, v, c) \<and> c \<le> 5)
   \<and> (\<exists>branches best.
         bb_run 3 [(10, 5), (3, 4)] 5 [[Some 0, None], [Some 1, None]] ([Some 0, Some 0], 0, 0)
           = Inr (branches, best) \<and> snd (snd best) \<le> 5)
   \<and> (\<exists>best. bf_loop [(10, 5), (3, 4)] 5 (take 3 (product_range2 2)) ([0, 0], 0, 0) = Inr best
         \<and> snd (snd best) \<le> 5)"
proof -
  have h: "\<forall>(v, c)\<in>set [(10::int, 5::int), (3, 4)]. 0 \<le> v \<and> 0 \<le> c" by simp
  have b: "(0::int) \<le> 5" by simp
  have l: "length [(10::int, 5::int), (3, 4)] = 2" by simp
  have e: "expand_branches (replicate 2 None) = Inr [[Some 0, None], [Some 1, None]]"
    by (simp add: expand_branches_def numeral_2_eq_2)
  have r: "replicate 2 (Some (0::int)) = [Some 0, Some 0]" "replicate 2 (0::int) = [0, 0]"
    by (simp_all add: numeral_2_eq_2)
  note t = search_stays_feasible [OF h b, unfolded l, unfolded e r]
  from t show ?thesis by blast
qed

text \<open>
  C5. For items with non-negative values and costs and bounds \<open>0 \<le> b1 \<le> b2\<close>, each
  solver returns for both bounds, and the value it returns for \<open>b1\<close> is at most the
  value it returns for \<open>b2\<close>.
\<close>

theorem value_monotone_in_bound:
  assumes "\<forall>(v, c)\<in>set items. 0 \<le> v \<and> 0 \<le> c" and "0 \<le> b1" and "b1 \<le> b2"
  shows "\<forall>solver\<in>{branch_and_bound, brute_force}.
     \<exists>a1 v1 c1 a2 v2 c2. solver items b1 = Inr (a1, v1, c1)
        \<and> solver items b2 = Inr (a2, v2, c2) \<and> v1 \<le> v2"
proof -
  note nn = nonneg_costs [OF assms(1)]
  from assms(2,3) have b2: "0 \<le> b2" by simp
  from bb_optimal [OF nn assms(2)] obtain r1 where
    r1: "branch_and_bound items b1 = Inr r1" "optimal items b1 r1" by blast
  from bb_optimal [OF nn b2] obtain r2 where
    r2: "branch_and_bound items b2 = Inr r2" "optimal items b2 r2" by blast
  from bf_optimal [OF assms(2)] obtain q1 where
    q1: "brute_force items b1 = Inr q1" "optimal items b1 q1" by blast
  from bf_optimal [OF b2] obtain q2 where
    q2: "brute_force items b2 = Inr q2" "optimal items b2 q2" by blast
  have "\<exists>a1 v1 c1 a2 v2 c2. branch_and_bound items b1 = Inr (a1, v1, c1)
        \<and> branch_and_bound items b2 = Inr (a2, v2, c2) \<and> v1 \<le> v2"
    using r1(1) r2(1) optimal_mono [OF r1(2) r2(2) assms(3)]
    by (cases r1, cases r2) auto
  moreover have "\<exists>a1 v1 c1 a2 v2 c2. brute_force items b1 = Inr (a1, v1, c1)
        \<and> brute_force items b2 = Inr (a2, v2, c2) \<and> v1 \<le> v2"
    using q1(1) q2(1) optimal_mono [OF q1(2) q2(2) assms(3)]
    by (cases q1, cases q2) auto
  ultimately show ?thesis by simp
qed

theorem value_monotone_in_bound_witness:
  "\<exists>a1 c1 a2 c2. branch_and_bound [(10, 5), (3, 4)] 4 = Inr (a1, 3, c1)
      \<and> branch_and_bound [(10, 5), (3, 4)] 9 = Inr (a2, 13, c2)
      \<and> brute_force [(10, 5), (3, 4)] 4 = Inr (a1, 3, c1)
      \<and> brute_force [(10, 5), (3, 4)] 9 = Inr (a2, 13, c2)"
proof -
  have h: "\<forall>(v, c)\<in>set [(10::int, 5::int), (3, 4)]. 0 \<le> v \<and> 0 \<le> c" by simp
  have b: "(0::int) \<le> 4" "(4::int) \<le> 9" by simp_all
  note t = value_monotone_in_bound [OF h b]
  from bspec [OF t insertI1] obtain a1 v1 c1 a2 v2 c2 where
    r: "branch_and_bound [(10, 5), (3, 4)] 4 = Inr (a1, v1, c1)"
       "branch_and_bound [(10, 5), (3, 4)] 9 = Inr (a2, v2, c2)" "v1 \<le> v2" by blast
  have e: "branch_and_bound [(10, 5), (3, 4)] 4 = Inr ([0, 1], 3, 4)"
    "branch_and_bound [(10, 5), (3, 4)] 9 = Inr ([1, 1], 13, 9)"
    "brute_force [(10, 5), (3, 4)] 4 = Inr ([0, 1], 3, 4)"
    "brute_force [(10, 5), (3, 4)] 9 = Inr ([1, 1], 13, 9)"
    by code_simp+
  from r e show ?thesis by simp
qed

text \<open>
  C8. For items with non-negative values and costs and a bound that is not negative: when
  the cost of every single item exceeds the bound, both solvers return the all-excluded
  assignment with value 0 and cost 0; and for the empty item sequence both return the
  empty assignment with value 0 and cost 0.
\<close>

theorem trivial_solution:
  assumes "\<forall>(v, c)\<in>set items. 0 \<le> v \<and> 0 \<le> c" and "0 \<le> bound"
  shows "((\<forall>(v, c)\<in>set items. bound < c) \<longrightarrow>
            branch_and_bound items bound = Inr (replicate (length items) 0, 0, 0)
          \<and> brute_force items bound = Inr (replicate (length items) 0, 0, 0))
       \<and> branch_and_bound [] bound = Inr ([], 0, 0)
       \<and> brute_force [] bound = Inr ([], 0, 0)"
proof (intro conjI impI)
  note nn = nonneg_costs [OF assms(1)]
  assume "\<forall>(v, c)\<in>set items. bound < c"
  then have big: "\<forall>it\<in>set items. bound < snd it" by auto
  from bb_optimal [OF nn assms(2)] optimal_trivial [OF nn big]
  show "branch_and_bound items bound = Inr (replicate (length items) 0, 0, 0)" by blast
  from bf_optimal [OF assms(2)] optimal_trivial [OF nn big]
  show "brute_force items bound = Inr (replicate (length items) 0, 0, 0)" by blast
next
  have e: "\<forall>it\<in>set ([] :: item list). 0 \<le> snd it" "\<forall>it\<in>set ([] :: item list). bound < snd it"
    by simp_all
  from bb_optimal [OF e(1) assms(2)] optimal_trivial [OF e]
  show "branch_and_bound [] bound = Inr ([], 0, 0)" by fastforce
  from bf_optimal [OF assms(2), of "[]"] optimal_trivial [OF e]
  show "brute_force [] bound = Inr ([], 0, 0)" by fastforce
qed

theorem trivial_solution_witness:
  "branch_and_bound [(10, 5), (3, 7)] 4 = Inr ([0, 0], 0, 0)
   \<and> brute_force [(10, 5), (3, 7)] 4 = Inr ([0, 0], 0, 0)
   \<and> branch_and_bound [] 4 = Inr ([], 0, 0)
   \<and> brute_force [] 4 = Inr ([], 0, 0)"
proof -
  have h: "\<forall>(v, c)\<in>set [(10::int, 5::int), (3, 7)]. 0 \<le> v \<and> 0 \<le> c" by simp
  have b: "(0::int) \<le> 4" by simp
  have g: "\<forall>(v, c)\<in>set [(10::int, 5::int), (3, 7)]. 4 < c" by simp
  from trivial_solution [OF h b] g show ?thesis by (simp add: numeral_2_eq_2)
qed

text \<open>
  C9. For every item sequence and every bound, the frontier loop of
  \<open>branch_and_bound\<close> ends: after at most \<open>2 ^ (n + 1)\<close> iterations the frontier
  is empty, and the loop returns the best candidate of that state. Every expansion
  decides one more entry: \<open>d\<close> expansions below an assignment \<open>s\<close> there are
  \<open>2 ^ d\<close> assignments, each with \<open>d\<close> unset entries fewer than \<open>s\<close>, and below
  level \<open>unset s \<le> n\<close> there is nothing. So the tree below the all-unset assignment has
  \<open>n\<close> levels, the last one of \<open>2 ^ n\<close> assignments without children.
\<close>

theorem frontier_empties:
  "(\<exists>bs best. expand_branches (replicate (length items) None) = Inr bs
       \<and> (\<forall>k\<ge>2 ^ (length items + 1).
             bb_run k items bound bs (replicate (length items) (Some 0), 0, 0) = Inr ([], best))
       \<and> bb_loop items bound bs (replicate (length items) (Some 0), 0, 0) = Inr best)
   \<and> (\<forall>s. unset s \<le> length s \<and> descendants s (Suc (unset s)) = []
         \<and> (\<forall>d\<le>unset s. length (descendants s d) = 2 ^ d
               \<and> (\<forall>s'\<in>set (descendants s d). unset s' = unset s - d)))
   \<and> unset (replicate (length items) None) = length items
   \<and> length (descendants (replicate (length items) None) (length items)) = 2 ^ length items
   \<and> (\<forall>s\<in>set (descendants (replicate (length items) None) (length items)).
         expand_branches s = Inr [])
   \<and> descendants (replicate (length items) None) (Suc (length items)) = []"
proof (intro conjI)
  let ?n = "length items"
  let ?init = "(replicate ?n (Some 0), 0, 0) :: entry candidate"
  from frontier_root obtain bs where
    bs: "expand_branches (replicate ?n None) = Inr bs" "frontier_ok items bs" by blast
  from weight_children [OF bs(1)] have "weight bs < tree_size ?n" by (simp add: unset_root)
  with tree_size_power [of ?n] have w: "weight bs \<le> 2 ^ (?n + 1)" by simp
  from bb_run_empties [OF bs(2) w] obtain best where
    r: "bb_run (2 ^ (?n + 1)) items bound bs ?init = Inr ([], best)" by blast
  from bb_run_loop [OF r] have loop: "bb_loop items bound bs ?init = Inr best" by simp
  have "bb_run k items bound bs ?init = Inr ([], best)" if "2 ^ (?n + 1) \<le> k" for k
  proof -
    from that w have "weight bs \<le> k" by simp
    from bb_run_empties [OF bs(2) this] obtain best' where
      r': "bb_run k items bound bs ?init = Inr ([], best')" by blast
    from bb_run_loop [OF r'] loop have "best' = best" by simp
    with r' show ?thesis by simp
  qed
  with bs(1) loop
  show "\<exists>bs best. expand_branches (replicate ?n None) = Inr bs
       \<and> (\<forall>k\<ge>2 ^ (?n + 1). bb_run k items bound bs ?init = Inr ([], best))
       \<and> bb_loop items bound bs ?init = Inr best" by blast
next
  show "\<forall>s. unset s \<le> length s \<and> descendants s (Suc (unset s)) = []
         \<and> (\<forall>d\<le>unset s. length (descendants s d) = 2 ^ d
               \<and> (\<forall>s'\<in>set (descendants s d). unset s' = unset s - d))"
  proof (intro allI conjI impI)
    fix s d
    show "unset s \<le> length s" by (rule unset_le_length)
    show "descendants s (Suc (unset s)) = []" by (rule descendants_bottom)
    assume d: "d \<le> unset s"
    from descendants_shape [OF d] show "length (descendants s d) = 2 ^ d" by blast
    from descendants_shape [OF d] show "\<forall>s'\<in>set (descendants s d). unset s' = unset s - d"
      by blast
  qed
next
  show "unset (replicate (length items) None) = length items" by (rule unset_root)
next
  show "length (descendants (replicate (length items) None) (length items)) = 2 ^ length items"
    using descendants_shape [of "length items" "replicate (length items) None"]
    by (simp add: unset_root)
next
  show "\<forall>s\<in>set (descendants (replicate (length items) None) (length items)).
         expand_branches s = Inr []"
    using descendants_leaves [of _ "replicate (length items) None"] by (simp add: unset_root)
next
  show "descendants (replicate (length items) None) (Suc (length items)) = []"
    using descendants_bottom [of "replicate (length items) None"] by (simp add: unset_root)
qed

theorem frontier_empties_witness:
  "(\<exists>best. bb_run 8 [(10, 5), (3, 4)] 5 [[Some 0, None], [Some 1, None]] ([Some 0, Some 0], 0, 0)
              = Inr ([], best)
          \<and> bb_loop [(10, 5), (3, 4)] 5 [[Some 0, None], [Some 1, None]] ([Some 0, Some 0], 0, 0)
              = Inr best)
   \<and> length (descendants [None, None] 2) = 4
   \<and> descendants [None, None] 3 = []"
proof -
  have l: "length [(10::int, 5::int), (3, 4)] = 2" by simp
  have e: "expand_branches (replicate 2 None) = Inr [[Some 0, None], [Some 1, None]]"
    by (simp add: expand_branches_def numeral_2_eq_2)
  have r: "replicate 2 (Some (0::int)) = [Some 0, Some 0]" "Suc 2 = 3" "(2::nat) ^ (2 + 1) = 8"
    "(2::nat) ^ 2 = 4" "replicate 2 (None :: entry) = [None, None]"
    by (simp_all add: numeral_2_eq_2)
  note t = frontier_empties [of "[(10, 5), (3, 4)]" 5, unfolded l, unfolded e, unfolded r]
  from t have 1: "\<exists>best. bb_run 8 [(10, 5), (3, 4)] 5 [[Some 0, None], [Some 1, None]]
                     ([Some 0, Some 0], 0, 0) = Inr ([], best)
          \<and> bb_loop [(10, 5), (3, 4)] 5 [[Some 0, None], [Some 1, None]] ([Some 0, Some 0], 0, 0)
              = Inr best"
    by blast
  from t have 2: "length (descendants [None, None] 2) = 4" by blast
  from t have 3: "descendants [None, None] 3 = []" by blast
  from 1 2 3 show ?thesis by (intro conjI)
qed

text \<open>
  C10. In \<open>brute_force\<close>, for items with non-negative values and costs and a bound that
  is not negative: after any number \<open>k\<close> of iterations the best candidate is within the
  bound, and if the next candidate passes the tie-break test against it (the same value,
  strictly smaller cost), then that candidate is within the bound too.
\<close>

theorem tie_break_feasible:
  assumes "\<forall>(v, c)\<in>set items. 0 \<le> v \<and> 0 \<le> c" and "0 \<le> bound"
  shows "\<forall>k. \<exists>best.
           bf_loop items bound (take k (product_range2 (length items)))
             (replicate (length items) 0, 0, 0) = Inr best
         \<and> snd (snd best) \<le> bound
         \<and> (\<forall>solution cost value.
               k < length (product_range2 (length items))
             \<and> solution = product_range2 (length items) ! k
             \<and> compute_cost (map Some solution) items = Inr cost
             \<and> compute_value (map Some solution) items = Inr value
             \<and> value = fst (snd best) \<and> cost < snd (snd best)
             \<longrightarrow> cost \<le> bound)"
proof
  fix k
  from bf_prefix_feasible [OF assms(2), of items k] obtain best where
    b: "bf_loop items bound (take k (product_range2 (length items)))
             (replicate (length items) 0, 0, 0) = Inr best" "snd (snd best) \<le> bound" by blast
  then have "\<forall>solution cost value.
               k < length (product_range2 (length items))
             \<and> solution = product_range2 (length items) ! k
             \<and> compute_cost (map Some solution) items = Inr cost
             \<and> compute_value (map Some solution) items = Inr value
             \<and> value = fst (snd best) \<and> cost < snd (snd best)
             \<longrightarrow> cost \<le> bound" by auto
  with b show "\<exists>best.
           bf_loop items bound (take k (product_range2 (length items)))
             (replicate (length items) 0, 0, 0) = Inr best
         \<and> snd (snd best) \<le> bound
         \<and> (\<forall>solution cost value.
               k < length (product_range2 (length items))
             \<and> solution = product_range2 (length items) ! k
             \<and> compute_cost (map Some solution) items = Inr cost
             \<and> compute_value (map Some solution) items = Inr value
             \<and> value = fst (snd best) \<and> cost < snd (snd best)
             \<longrightarrow> cost \<le> bound)" by blast
qed

theorem tie_break_feasible_witness:
  "\<exists>best. bf_loop [(3, 1), (3, 2)] 2 (take 2 (product_range2 2)) ([0, 0], 0, 0) = Inr best
     \<and> best = ([0, 1], 3, 2)
     \<and> product_range2 2 ! 2 = [1, 0]
     \<and> compute_cost (map Some [1, 0]) [(3, 1), (3, 2)] = Inr 1
     \<and> compute_value (map Some [1, 0]) [(3, 1), (3, 2)] = Inr (fst (snd best))
     \<and> 1 < snd (snd best) \<and> (1::int) \<le> 2"
proof -
  have h: "\<forall>(v, c)\<in>set [(3::int, 1::int), (3, 2)]. 0 \<le> v \<and> 0 \<le> c" by simp
  have b: "(0::int) \<le> 2" by simp
  have l: "length [(3::int, 1::int), (3, 2)] = 2" by simp
  have r: "replicate 2 (0::int) = [0, 0]" by (simp add: numeral_2_eq_2)
  have e: "bf_loop [(3, 1), (3, 2)] 2 (take 2 (product_range2 2)) ([0, 0], 0, 0)
             = Inr ([0, 1], 3, 2)" by code_simp
  have s: "product_range2 2 ! 2 = [1, 0]" "2 < length (product_range2 2)" by code_simp+
  have c: "compute_cost (map Some [1, 0]) [(3, 1), (3, 2)] = Inr 1"
    "compute_value (map Some [1, 0]) [(3, 1), (3, 2)] = Inr 3" by code_simp+
  from tie_break_feasible [OF h b, unfolded l, unfolded r, THEN spec, of 2] obtain best where
    p: "bf_loop [(3, 1), (3, 2)] 2 (take 2 (product_range2 2)) ([0, 0], 0, 0) = Inr best"
       "snd (snd best) \<le> 2"
       "\<forall>solution cost value.
               2 < length (product_range2 2)
             \<and> solution = product_range2 2 ! 2
             \<and> compute_cost (map Some solution) [(3, 1), (3, 2)] = Inr cost
             \<and> compute_value (map Some solution) [(3, 1), (3, 2)] = Inr value
             \<and> value = fst (snd best) \<and> cost < snd (snd best)
             \<longrightarrow> cost \<le> 2"
    by blast
  from p(1) e have eq: "best = ([0, 1], 3, 2)" by simp
  from p(3) s c eq have "(1::int) \<le> 2" by simp
  with p(1) eq s c show ?thesis by simp
qed

end
